theory Spec2Isabelle
  imports Main "HOL-Library.Sublist"
begin

section \<open>The Go string primitives used by the template package\<close>

text \<open>
  A Go string is a sequence of bytes; it is modelled as a \<open>string\<close> (a list of 8-bit
  characters). The template parser of \<^verbatim>\<open>internals/tpl/template.go\<close> uses three
  functions of Go's standard library: \<^verbatim>\<open>strings.SplitN\<close> (always with \<open>n = 2\<close>),
  \<^verbatim>\<open>strings.Trim\<close> (always with the cutset \<^verbatim>\<open>" "\<close>) and string concatenation.
\<close>

text \<open>
  \<^verbatim>\<open>utf8.DecodeRuneInString\<close>, the width it returns: 0 for the empty string, 1 for an
  ASCII byte and for every byte that does not start a well-formed encoding, otherwise the
  length (2 to 4) of the encoding. \<open>continuation s i lo hi\<close> says that byte \<open>i\<close> of
  \<open>s\<close> exists and lies in the accepted range.
\<close>

definition continuation :: "string \<Rightarrow> nat \<Rightarrow> nat \<Rightarrow> nat \<Rightarrow> bool" where
  "continuation s i lo hi \<longleftrightarrow>
     i < length s \<and> lo \<le> (of_char (s ! i) :: nat) \<and> (of_char (s ! i) :: nat) \<le> hi"

definition rune_size :: "string \<Rightarrow> nat" where
  "rune_size s =
     (case s of
        [] \<Rightarrow> 0
      | c # _ \<Rightarrow>
          (let b = (of_char c :: nat);
               sz = (if b < 0xC2 \<or> 0xF4 < b then 1 else if b < 0xE0 then 2
                     else if b < 0xF0 then 3 else 4 :: nat);
               lo = (if b = 0xE0 then 0xA0 else if b = 0xF0 then 0x90 else 0x80 :: nat);
               hi = (if b = 0xED then 0x9F else if b = 0xF4 then 0x8F else 0xBF :: nat)
           in if sz = 1 \<or> length s < sz then 1
              else if \<not> continuation s 1 lo hi then 1
              else if sz = 2 then 2
              else if \<not> continuation s 2 0x80 0xBF then 1
              else if sz = 3 then 3
              else if \<not> continuation s 3 0x80 0xBF then 1
              else 4))"

text \<open>
  \<^verbatim>\<open>strings.Index(s, sep)\<close>: the position of the first occurrence of \<open>sep\<close> in
  \<open>s\<close>; Go's \<open>-1\<close> is \<open>None\<close>.
\<close>

fun Index :: "string \<Rightarrow> string \<Rightarrow> nat option" where
  "Index [] sep = (if sep = [] then Some 0 else None)"
| "Index (c # cs) sep =
     (if prefix sep (c # cs) then Some 0 else map_option Suc (Index cs sep))"

text \<open>
  \<^verbatim>\<open>strings.SplitN(s, sep, 2)\<close>. With an empty separator Go splits after the first
  UTF-8 sequence (\<^verbatim>\<open>explode(s, 2)\<close>): no part for the empty string, one part when
  \<open>s\<close> is a single rune, otherwise the first rune and the rest. With a non-empty
  separator it cuts \<open>s\<close> at the first occurrence of \<open>sep\<close>, or returns \<open>s\<close> alone
  when there is none.
\<close>

definition explode2 :: "string \<Rightarrow> string list" where
  "explode2 s =
     (if s = [] then []
      else if drop (rune_size s) s = [] then [s]
      else [take (rune_size s) s, drop (rune_size s) s])"

definition SplitN2 :: "string \<Rightarrow> string \<Rightarrow> string list" where
  "SplitN2 s sep =
     (if sep = [] then explode2 s
      else (case Index s sep of
              None \<Rightarrow> [s]
            | Some m \<Rightarrow> [take m s, drop (m + length sep) s]))"

text \<open>\<^verbatim>\<open>strings.Trim(s, cutset)\<close> for a cutset of ASCII characters.\<close>

definition Trim :: "string \<Rightarrow> string \<Rightarrow> string" where
  "Trim s cutset =
     rev (dropWhile (\<lambda>c. c \<in> set cutset) (rev (dropWhile (\<lambda>c. c \<in> set cutset) s)))"

subsection \<open>Facts about the primitives\<close>

lemma rune_size_pos: "s \<noteq> [] \<Longrightarrow> 0 < rune_size s"
  by (cases s) (simp_all add: rune_size_def Let_def)

lemma explode2_parts:
  "explode2 s = [] \<longleftrightarrow> s = []"
  "explode2 s = [x] \<Longrightarrow> x = s"
  "explode2 s = a # b # ps \<Longrightarrow> s = a @ b \<and> b \<noteq> [] \<and> ps = []"
  by (auto simp: explode2_def split: if_splits)

lemma explode2_first_nonempty: "explode2 s = a # b # ps \<Longrightarrow> a \<noteq> []"
  using rune_size_pos [of s] by (auto simp: explode2_def split: if_splits)

lemma Index_Some:
  "Index s sep = Some m \<Longrightarrow> s = take m s @ sep @ drop (m + length sep) s"
proof (induction s arbitrary: m)
  case Nil
  then show ?case by (simp split: if_splits)
next
  case (Cons c cs)
  show ?case
  proof (cases "prefix sep (c # cs)")
    case True
    with Cons.prems have "m = 0" by simp
    with True show ?thesis by (auto simp: prefix_def)
  next
    case False
    with Cons.prems obtain m' where m': "Index cs sep = Some m'" "m = Suc m'" by auto
    from Cons.IH [OF m'(1)] m'(2) show ?thesis by simp
  qed
qed

lemma Index_None: "Index s sep = None \<longleftrightarrow> \<not> sublist sep s"
proof (induction s)
  case Nil
  then show ?case by simp
next
  case (Cons c cs)
  then show ?case by (simp add: sublist_Cons_right)
qed

lemma SplitN2_none: "sep \<noteq> [] \<Longrightarrow> \<not> sublist sep s \<Longrightarrow> SplitN2 s sep = [s]"
  using Index_None [of s sep] by (simp add: SplitN2_def)

lemma SplitN2_one: "SplitN2 s sep = [x] \<Longrightarrow> x = s"
  by (auto simp: SplitN2_def explode2_parts split: if_splits option.splits)

lemma SplitN2_two:
  assumes "SplitN2 s sep = a # b # ps"
  shows "ps = [] \<and> s = a @ sep @ b \<and> (sep = [] \<longrightarrow> a \<noteq> [])"
proof (cases "sep = []")
  case True
  with assms have "explode2 s = a # b # ps" by (simp add: SplitN2_def)
  with True show ?thesis
    using explode2_parts(3) explode2_first_nonempty by auto
next
  case False
  with assms obtain m where m: "Index s sep = Some m" "a = take m s"
      "b = drop (m + length sep) s" "ps = []"
    by (auto simp: SplitN2_def split: option.splits)
  with Index_Some [OF m(1)] False show ?thesis by simp
qed

lemma SplitN2_two_length:
  "SplitN2 s sep = p0 # p1 # ps \<Longrightarrow> length s = length p0 + length sep + length p1"
  by (drule SplitN2_two) auto

section \<open>The template package\<close>

text \<open>
  The errors of the template package (\<open>ErrKeyNotFound\<close>, \<open>ErrTagNotClosed\<close>), the
  run-time panic of an index out of range (which \<open>parse\<close> can only reach with an empty
  delimiter), and the errors of the environment source: \<open>ErrTemplate\<close> tags an error
  with a line number, \<open>ErrNotKeyValuePairs\<close> is "template is not formatted as key=value
  pairs", \<open>ErrInvalidTemplateVar\<close> names a template variable that is not an identifier.
\<close>

datatype error =
    ErrKeyNotFound string
  | ErrTagNotClosed string
  | IndexOutOfRange
  | ErrTemplate int error
  | ErrNotKeyValuePairs
  | ErrInvalidTemplateVar string

record parser =
  startDelim :: string
  endDelim :: string

text \<open>A node is a plain text value (\<open>val\<close>) or a key that is mapped to a value (\<open>key\<close>).\<close>

datatype node = Val string | Key string

record template =
  nodes :: "node list"

definition NewParser :: "string \<Rightarrow> string \<Rightarrow> parser" where
  "NewParser sd ed = \<lparr>startDelim = sd, endDelim = ed\<rparr>"

fun inject :: "node \<Rightarrow> (string \<rightharpoonup> string) \<Rightarrow> error + string" where
  "inject (Val v) replacements = Inr v"
| "inject (Key s) replacements =
     (case replacements s of None \<Rightarrow> Inl (ErrKeyNotFound s) | Some data \<Rightarrow> Inr data)"

text \<open>The loop of \<open>Inject\<close>, with the result string \<open>res\<close> built so far.\<close>

fun inject_nodes :: "node list \<Rightarrow> (string \<rightharpoonup> string) \<Rightarrow> string \<Rightarrow> error + string" where
  "inject_nodes [] replacements res = Inr res"
| "inject_nodes (n # ns) replacements res =
     (case inject n replacements of
        Inl err \<Rightarrow> Inl err
      | Inr injected \<Rightarrow> inject_nodes ns replacements (res @ injected))"

definition Inject :: "template \<Rightarrow> (string \<rightharpoonup> string) \<Rightarrow> error + string" where
  "Inject t replacements = inject_nodes (nodes t) replacements []"

text \<open>
  \<open>Keys\<close> collects the keys in a Go map used as a set and copies the set into a slice.
  Go leaves the iteration order of a map open; the model keeps the set as a list without
  repetitions, in order of first insertion, and returns that list.
\<close>

fun keys_set :: "node list \<Rightarrow> string list \<Rightarrow> string list" where
  "keys_set [] set_so_far = set_so_far"
| "keys_set (Key s # ns) set_so_far =
     keys_set ns (if s \<in> set set_so_far then set_so_far else set_so_far @ [s])"
| "keys_set (Val v # ns) set_so_far = keys_set ns set_so_far"

definition Keys :: "template \<Rightarrow> string list" where
  "Keys t = keys_set (nodes t) []"

text \<open>
  \<open>parse\<close> is the recursive helper of \<open>Parse\<close>. Both recursive calls are on a
  shorter string, which is the termination argument.
\<close>

function parse :: "parser \<Rightarrow> string \<Rightarrow> error + node list" where
  "parse p raw =
     (case SplitN2 raw (startDelim p) of
        [] \<Rightarrow> Inl IndexOutOfRange
      | [p0] \<Rightarrow> (if length p0 > 0 then Inr [Val p0] else Inr [])
      | p0 # p1 # _ \<Rightarrow>
          (if length p0 > 0 then
             (case parse p (startDelim p @ p1) of
                Inl err \<Rightarrow> Inl err
              | Inr tail \<Rightarrow> Inr (Val p0 # tail))
           else
             (case SplitN2 p1 (endDelim p) of
                [] \<Rightarrow> Inl IndexOutOfRange
              | [k0] \<Rightarrow> Inl (ErrTagNotClosed (endDelim p))
              | k0 # rest # _ \<Rightarrow>
                  (case parse p rest of
                     Inl err \<Rightarrow> Inl err
                   | Inr tail \<Rightarrow> Inr (Key (Trim k0 '' '') # tail)))))"
  by pat_completeness auto
termination
proof (relation "measure (\<lambda>(p, raw). length raw)")
  show "wf (measure (\<lambda>(p, raw). length raw))" by simp
next
  fix p :: parser and raw p0 ps p1 ps'
  assume "SplitN2 raw (startDelim p) = p0 # ps" "ps = p1 # ps'" "0 < length p0"
  then show "((p, startDelim p @ p1), (p, raw)) \<in> measure (\<lambda>(p, raw). length raw)"
    by (auto dest: SplitN2_two_length)
next
  fix p :: parser and raw p0 ps p1 ps' k0 ks rest ks'
  assume "SplitN2 raw (startDelim p) = p0 # ps" "ps = p1 # ps'" "\<not> 0 < length p0"
    "SplitN2 p1 (endDelim p) = k0 # ks" "ks = rest # ks'"
  then show "((p, rest), (p, raw)) \<in> measure (\<lambda>(p, raw). length raw)"
    using SplitN2_two [of raw "startDelim p" p0 p1 ps'] SplitN2_two [of p1 "endDelim p" k0 rest ks']
    by auto
qed

declare parse.simps [simp del]

definition Parse :: "parser \<Rightarrow> string \<Rightarrow> error + template" where
  "Parse p raw =
     (case parse p raw of
        Inl err \<Rightarrow> Inl err
      | Inr ns \<Rightarrow> Inr \<lparr>nodes = ns\<rparr>)"

text \<open>
  The same function with a bound on the depth of the recursion: \<open>None\<close> when the bound is
  used up before \<open>parse\<close> returns.
\<close>

fun parse_fuel :: "nat \<Rightarrow> parser \<Rightarrow> string \<Rightarrow> (error + node list) option" where
  "parse_fuel 0 p raw = None"
| "parse_fuel (Suc fuel) p raw =
     (case SplitN2 raw (startDelim p) of
        [] \<Rightarrow> Some (Inl IndexOutOfRange)
      | [p0] \<Rightarrow> (if length p0 > 0 then Some (Inr [Val p0]) else Some (Inr []))
      | p0 # p1 # _ \<Rightarrow>
          (if length p0 > 0 then
             (case parse_fuel fuel p (startDelim p @ p1) of
                None \<Rightarrow> None
              | Some (Inl err) \<Rightarrow> Some (Inl err)
              | Some (Inr tail) \<Rightarrow> Some (Inr (Val p0 # tail)))
           else
             (case SplitN2 p1 (endDelim p) of
                [] \<Rightarrow> Some (Inl IndexOutOfRange)
              | [k0] \<Rightarrow> Some (Inl (ErrTagNotClosed (endDelim p)))
              | k0 # rest # _ \<Rightarrow>
                  (case parse_fuel fuel p rest of
                     None \<Rightarrow> None
                   | Some (Inl err) \<Rightarrow> Some (Inl err)
                   | Some (Inr tail) \<Rightarrow> Some (Inr (Key (Trim k0 '' '') # tail))))))"

section \<open>The environment source: quote trimming, the line dialect, template variables\<close>

text \<open>
  The functions of this section (\<open>trimQuotes\<close>, \<open>parseEnv\<close>, \<open>NewEnv\<close>) are called by
  the tests of \<^verbatim>\<open>internals/secrethub/run_test.go\<close>; their definitions follow the
  specification, sections 4.2 to 4.4.
\<close>

definition squote :: char where
  "squote = CHR 0x27"

definition dquote :: char where
  "dquote = CHR 0x22"

text \<open>
  Modelled from the spec: \<open>trimQuotes\<close> (the Value Normalizer of section 4.3); the
  function is exercised by \<^verbatim>\<open>TestTrimQuotes\<close> only. A string of at least two characters
  that starts and ends with the same kind of quote loses exactly that outermost pair; every
  other string is returned unchanged.
\<close>

definition trimQuotes :: "string \<Rightarrow> string" where
  "trimQuotes s =
     (if 2 \<le> length s \<and>
         ((hd s = squote \<and> last s = squote) \<or> (hd s = dquote \<and> last s = dquote))
      then butlast (tl s)
      else s)"

text \<open>
  Modelled from the spec: the whitespace that the line dialect trims and skips, spaces and
  tabs (section 4.2).
\<close>

definition whitespace :: "char \<Rightarrow> bool" where
  "whitespace c \<longleftrightarrow> c = CHR '' '' \<or> c = CHR 0x09"

definition trimSpace :: "string \<Rightarrow> string" where
  "trimSpace s = rev (dropWhile whitespace (rev (dropWhile whitespace s)))"

text \<open>
  Modelled from the spec: an \<open>EnvVar\<close> (section 3), its key, its value and the number of
  its line.
\<close>

record envvar =
  key :: string
  val :: string
  lineNumber :: int

text \<open>
  Modelled from the spec: "input is split into lines" (section 4.2), at each line feed.
\<close>

fun splitLines :: "string \<Rightarrow> string list" where
  "splitLines [] = [[]]"
| "splitLines (c # cs) =
     (if c = CHR 0x0A then [] # splitLines cs
      else (case splitLines cs of
              [] \<Rightarrow> [[c]]
            | l # ls \<Rightarrow> (c # l) # ls))"

text \<open>
  Modelled from the spec: a line is skipped when it is empty, when its content after the
  leading whitespace begins with \<^verbatim>\<open>#\<close>, or when it consists of whitespace only
  (section 4.2).
\<close>

definition skippedLine :: "string \<Rightarrow> bool" where
  "skippedLine line \<longleftrightarrow>
     line = [] \<or> prefix ''#'' (dropWhile whitespace line) \<or> (\<forall>c \<in> set line. whitespace c)"

text \<open>
  Modelled from the spec: one line of \<open>parseEnv\<close> (the line dialect of section 4.2), whose
  code is exercised by \<^verbatim>\<open>TestParseEnv\<close> only. \<open>None\<close> is a skipped line. Any other line
  is cut at its first \<^verbatim>\<open>=\<close>; a line without one fails with the error tagged with the line
  number.
\<close>

definition parseEnvLine :: "int \<Rightarrow> string \<Rightarrow> error + envvar option" where
  "parseEnvLine i line =
     (if skippedLine line then Inr None
      else if CHR ''='' \<notin> set line then Inl (ErrTemplate i ErrNotKeyValuePairs)
      else Inr (Some \<lparr>key = trimSpace (takeWhile (\<lambda>c. c \<noteq> CHR ''='') line),
                      val = trimQuotes (trimSpace (tl (dropWhile (\<lambda>c. c \<noteq> CHR ''='') line))),
                      lineNumber = i\<rparr>))"

text \<open>
  Modelled from the spec: the loop of \<open>parseEnv\<close> over the lines, which counts every line
  and stops at the first malformed one.
\<close>

fun parseEnvLines :: "int \<Rightarrow> string list \<Rightarrow> error + envvar list" where
  "parseEnvLines i [] = Inr []"
| "parseEnvLines i (line # ls) =
     (case parseEnvLine i line of
        Inl err \<Rightarrow> Inl err
      | Inr None \<Rightarrow> parseEnvLines (i + 1) ls
      | Inr (Some v) \<Rightarrow>
          (case parseEnvLines (i + 1) ls of
             Inl err \<Rightarrow> Inl err
           | Inr vars \<Rightarrow> Inr (v # vars)))"

text \<open>Modelled from the spec: \<open>parseEnv\<close>, the lines numbered from 1.\<close>

definition parseEnv :: "string \<Rightarrow> error + envvar list" where
  "parseEnv raw = parseEnvLines 1 (splitLines raw)"

text \<open>
  Modelled from the spec: the check of a template variable name against
  \<^verbatim>\<open>^[A-Za-z_][A-Za-z0-9_]*$\<close> (section 4.4, step 1).
\<close>

definition identStart :: "char \<Rightarrow> bool" where
  "identStart c \<longleftrightarrow> c \<in> set ''abcdefghijklmnopqrstuvwxyzABCDEFGHIJKLMNOPQRSTUVWXYZ_''"

definition identChar :: "char \<Rightarrow> bool" where
  "identChar c \<longleftrightarrow> identStart c \<or> c \<in> set ''0123456789''"

definition validIdentifier :: "string \<Rightarrow> bool" where
  "validIdentifier s = (case s of [] \<Rightarrow> False | c # cs \<Rightarrow> identStart c \<and> list_all identChar cs)"

text \<open>
  Modelled from the spec: the parts of the Environment Resolver that section 4.4 leaves
  open, taken as parameters: the policy that selects the dialect, the decoder of the
  mapping dialect, and the two delimiter pairs.
\<close>

record resolver =
  useMapping :: "string \<Rightarrow> bool"
  parseYML :: "string \<Rightarrow> error + envvar list"
  varParser :: parser
  secretParser :: parser

text \<open>
  Modelled from the spec: the line number of an entry whose dialect does not track lines,
  and the wrapping of an error with the line number when it is known (section 4.4,
  steps 4 and 5).
\<close>

definition unknownLine :: int where
  "unknownLine = - 1"

definition tagLine :: "envvar \<Rightarrow> error \<Rightarrow> error" where
  "tagLine v err = (if lineNumber v = unknownLine then err else ErrTemplate (lineNumber v) err)"

text \<open>
  Modelled from the spec: steps 4 to 6 of section 4.4. Each value has its template
  variables substituted, is compiled as a template of secret placeholders and is stored
  under its key, a later entry overwriting an earlier one.
\<close>

fun compileVars ::
  "resolver \<Rightarrow> (string \<rightharpoonup> string) \<Rightarrow> envvar list \<Rightarrow> (string \<rightharpoonup> template) \<Rightarrow>
     error + (string \<rightharpoonup> template)" where
  "compileVars r tvars [] env = Inr env"
| "compileVars r tvars (v # vs) env =
     (case Parse (varParser r) (val v) of
        Inl err \<Rightarrow> Inl (tagLine v err)
      | Inr t \<Rightarrow>
          (case Inject t tvars of
             Inl err \<Rightarrow> Inl (tagLine v err)
           | Inr substituted \<Rightarrow>
               (case Parse (secretParser r) substituted of
                  Inl err \<Rightarrow> Inl (tagLine v err)
                | Inr compiled \<Rightarrow> compileVars r tvars vs (env(key v \<mapsto> compiled)))))"

text \<open>
  Modelled from the spec: \<open>NewEnv\<close> (section 4.4), whose code is exercised by
  \<^verbatim>\<open>TestNewEnv\<close> and \<^verbatim>\<open>TestRunCommand_Run\<close> only. The template variables are a Go map;
  the association list gives the order in which its keys are visited.
\<close>

definition NewEnv ::
  "resolver \<Rightarrow> string \<Rightarrow> (string \<times> string) list \<Rightarrow> error + (string \<rightharpoonup> template)" where
  "NewEnv r raw templateVars =
     (case find (\<lambda>k. \<not> validIdentifier k) (map fst templateVars) of
        Some k \<Rightarrow> Inl (ErrInvalidTemplateVar k)
      | None \<Rightarrow>
          (case (if useMapping r raw then parseYML r raw else parseEnv raw) of
             Inl err \<Rightarrow> Inl err
           | Inr vars \<Rightarrow> compileVars r (map_of templateVars) vars Map.empty))"

section \<open>Notions used to state the properties\<close>

text \<open>What a node emits on injection: a value its text, a key the value bound to it.\<close>

fun emission :: "(string \<rightharpoonup> string) \<Rightarrow> node \<Rightarrow> string" where
  "emission m (Val v) = v"
| "emission m (Key k) = (case m k of None \<Rightarrow> [] | Some d \<Rightarrow> d)"

text \<open>
  In \<open>pre @ sep @ post\<close> no occurrence of \<open>sep\<close> starts before the one at position
  \<open>length pre\<close>: that occurrence is the first one.
\<close>

definition no_earlier :: "string \<Rightarrow> string \<Rightarrow> string \<Rightarrow> bool" where
  "no_earlier sep pre post \<longleftrightarrow>
     (\<forall>i \<in> {..<length pre}. \<not> prefix sep (drop i (pre @ sep @ post)))"

text \<open>The value node of a literal text; the parser makes none for the empty text.\<close>

definition lit :: "string \<Rightarrow> node list" where
  "lit text = (if text = [] then [] else [Val text])"

text \<open>
  A text that the parser reads as closed placeholders: a list of chunks, each a literal
  text \<open>pre\<close> and a key text \<open>k\<close>, standing for \<open>pre\<close>, the start delimiter, \<open>k\<close>
  and the end delimiter. \<open>well_delimited p cs follow\<close> says that, with \<open>follow\<close> as the
  text after the chunks, each start delimiter is the first one after the preceding chunk
  and each end delimiter the first one after its start delimiter.
\<close>

type_synonym chunk = "string \<times> string"

fun closed_text :: "parser \<Rightarrow> chunk list \<Rightarrow> string" where
  "closed_text p [] = []"
| "closed_text p ((pre, k) # cs) =
     pre @ startDelim p @ k @ endDelim p @ closed_text p cs"

fun closed_nodes :: "chunk list \<Rightarrow> node list" where
  "closed_nodes [] = []"
| "closed_nodes ((pre, k) # cs) = lit pre @ Key (Trim k '' '') # closed_nodes cs"

fun well_delimited :: "parser \<Rightarrow> chunk list \<Rightarrow> string \<Rightarrow> bool" where
  "well_delimited p [] follow = True"
| "well_delimited p ((pre, k) # cs) follow =
     (no_earlier (startDelim p) pre (k @ endDelim p @ closed_text p cs @ follow) \<and>
      no_earlier (endDelim p) k (closed_text p cs @ follow) \<and>
      well_delimited p cs follow)"

definition only_spaces :: "string \<Rightarrow> bool" where
  "only_spaces s \<longleftrightarrow> (\<forall>c \<in> set s. c = CHR '' '')"

section \<open>Facts about the parser\<close>

lemma no_earlier_Nil [simp]: "no_earlier sep [] post"
  by (simp add: no_earlier_def)

lemma no_earlier_Cons:
  "no_earlier sep (a # pre) post \<longleftrightarrow>
     \<not> prefix sep (a # pre @ sep @ post) \<and> no_earlier sep pre post"
proof -
  have "(\<forall>i<Suc (length pre). \<not> prefix sep (drop i (a # pre @ sep @ post))) \<longleftrightarrow>
        \<not> prefix sep (a # pre @ sep @ post) \<and>
        (\<forall>i<length pre. \<not> prefix sep (drop i (pre @ sep @ post)))"
    by (auto simp: less_Suc_eq_0_disj)
  then show ?thesis by (simp add: no_earlier_def Ball_def)
qed

lemma no_earlier_iff_Index:
  "no_earlier sep pre post \<longleftrightarrow> Index (pre @ sep @ post) sep = Some (length pre)"
proof (induction pre)
  case Nil
  have "Index (sep @ post) sep = Some 0"
  proof (cases "sep @ post")
    case Nil
    then show ?thesis by simp
  next
    case (Cons a list)
    then have "prefix sep (a # list)" by (metis prefixI)
    with Cons show ?thesis by simp
  qed
  then show ?case by simp
next
  case (Cons a pre)
  then show ?case by (auto simp: no_earlier_Cons)
qed

lemma no_earlier_empty_sep: "no_earlier [] pre post \<longleftrightarrow> pre = []"
  by (cases pre) (simp_all add: no_earlier_Cons)

lemma SplitN2_no_earlier:
  "sep \<noteq> [] \<Longrightarrow> no_earlier sep pre post \<Longrightarrow> SplitN2 (pre @ sep @ post) sep = [pre, post]"
  by (simp add: SplitN2_def no_earlier_iff_Index)

lemma parse_no_start:
  "startDelim p \<noteq> [] \<Longrightarrow> \<not> sublist (startDelim p) raw \<Longrightarrow> parse p raw = Inr (lit raw)"
  by (subst parse.simps) (simp add: SplitN2_none lit_def)

lemma parse_empty: "startDelim p \<noteq> [] \<Longrightarrow> parse p [] = Inr []"
  using parse_no_start [of p "[]"] by (simp add: lit_def)

lemma parse_at_start:
  assumes "startDelim p \<noteq> []"
  shows "parse p (startDelim p @ x) =
     (case SplitN2 x (endDelim p) of
        [] \<Rightarrow> Inl IndexOutOfRange
      | [k0] \<Rightarrow> Inl (ErrTagNotClosed (endDelim p))
      | k0 # rest # _ \<Rightarrow>
          (case parse p rest of
             Inl err \<Rightarrow> Inl err
           | Inr tail \<Rightarrow> Inr (Key (Trim k0 '' '') # tail)))"
proof -
  have "SplitN2 ([] @ startDelim p @ x) (startDelim p) = [[], x]"
    using assms by (intro SplitN2_no_earlier) simp_all
  then have "SplitN2 (startDelim p @ x) (startDelim p) = [[], x]" by simp
  then show ?thesis by (subst parse.simps) simp
qed

lemma parse_literal:
  assumes "startDelim p \<noteq> []" "pre \<noteq> []" "no_earlier (startDelim p) pre x"
  shows "parse p (pre @ startDelim p @ x) =
     (case parse p (startDelim p @ x) of
        Inl err \<Rightarrow> Inl err
      | Inr tail \<Rightarrow> Inr (Val pre # tail))"
proof -
  have "SplitN2 (pre @ startDelim p @ x) (startDelim p) = [pre, x]"
    using assms by (intro SplitN2_no_earlier)
  with assms(2) show ?thesis by (subst parse.simps) simp
qed

lemma parse_unterminated:
  assumes "startDelim p \<noteq> []" "no_earlier (startDelim p) pre rest"
    "\<not> sublist (endDelim p) rest"
  shows "parse p (pre @ startDelim p @ rest) = Inl (ErrTagNotClosed (endDelim p))"
proof -
  from assms(3) have ne: "endDelim p \<noteq> []" by auto
  have open_fails: "parse p (startDelim p @ rest) = Inl (ErrTagNotClosed (endDelim p))"
    using assms(1,3) ne by (simp add: parse_at_start SplitN2_none)
  show ?thesis
  proof (cases "pre = []")
    case True
    with open_fails show ?thesis by simp
  next
    case False
    with assms open_fails show ?thesis by (simp add: parse_literal)
  qed
qed

lemma parse_chunk:
  assumes "startDelim p \<noteq> []" "endDelim p \<noteq> []"
    "no_earlier (startDelim p) pre (k @ endDelim p @ rest)"
    "no_earlier (endDelim p) k rest"
  shows "parse p (pre @ startDelim p @ k @ endDelim p @ rest) =
     (case parse p rest of
        Inl err \<Rightarrow> Inl err
      | Inr tail \<Rightarrow> Inr (lit pre @ Key (Trim k '' '') # tail))"
proof -
  have split_end: "SplitN2 (k @ endDelim p @ rest) (endDelim p) = [k, rest]"
    using assms(2,4) by (intro SplitN2_no_earlier)
  have at_start: "parse p (startDelim p @ k @ endDelim p @ rest) =
     (case parse p rest of
        Inl err \<Rightarrow> Inl err
      | Inr tail \<Rightarrow> Inr (Key (Trim k '' '') # tail))"
    using assms(1) split_end by (simp add: parse_at_start)
  show ?thesis
  proof (cases "pre = []")
    case True
    with at_start show ?thesis by (simp add: lit_def split: sum.splits)
  next
    case False
    with assms(1,3) at_start show ?thesis
      by (simp add: parse_literal lit_def split: sum.splits)
  qed
qed

lemma parse_closed:
  assumes "startDelim p \<noteq> []" "endDelim p \<noteq> []"
  shows "well_delimited p cs follow \<Longrightarrow>
     parse p (closed_text p cs @ follow) =
       (case parse p follow of
          Inl err \<Rightarrow> Inl err
        | Inr tail \<Rightarrow> Inr (closed_nodes cs @ tail))"
proof (induction cs)
  case Nil
  show ?case by (simp split: sum.splits)
next
  case (Cons c cs)
  obtain pre k where c: "c = (pre, k)" by (cases c)
  from Cons.prems c have
    wd: "no_earlier (startDelim p) pre (k @ endDelim p @ closed_text p cs @ follow)"
        "no_earlier (endDelim p) k (closed_text p cs @ follow)"
        "well_delimited p cs follow"
    by simp_all
  have "parse p (pre @ startDelim p @ k @ endDelim p @ closed_text p cs @ follow) =
     (case parse p (closed_text p cs @ follow) of
        Inl err \<Rightarrow> Inl err
      | Inr tail \<Rightarrow> Inr (lit pre @ Key (Trim k '' '') # tail))"
    using assms wd(1,2) by (rule parse_chunk)
  with Cons.IH [OF wd(3)] c show ?case
    by (simp split: sum.splits)
qed

lemma Parse_Inl: "parse p raw = Inl e \<Longrightarrow> Parse p raw = Inl e"
  by (simp add: Parse_def)

lemma parse_literal_text:
  "parse p raw = Inr ns \<Longrightarrow> (\<forall>k. Key k \<notin> set ns) \<Longrightarrow>
     concat (map (emission m) ns) = raw"
proof (induction p raw arbitrary: ns rule: parse.induct)
  case (1 p raw)
  show ?case
  proof (cases "SplitN2 raw (startDelim p)")
    case Nil
    with "1.prems" show ?thesis by (subst (asm) parse.simps) simp
  next
    case (Cons p0 ps)
    note split = Cons
    show ?thesis
    proof (cases ps)
      case Nil
      with split have "p0 = raw" by (auto dest: SplitN2_one)
      with "1.prems" split Nil show ?thesis
        by (subst (asm) parse.simps) (auto split: if_splits)
    next
      case (Cons p1 ps')
      with split have parts: "SplitN2 raw (startDelim p) = p0 # p1 # ps'" by simp
      then have raw: "raw = p0 @ startDelim p @ p1" by (auto dest: SplitN2_two)
      show ?thesis
      proof (cases "0 < length p0")
        case True
        with "1.prems"(1) parts obtain tail where
          tail: "parse p (startDelim p @ p1) = Inr tail" "ns = Val p0 # tail"
          by (subst (asm) parse.simps) (auto split: sum.splits)
        with "1.prems"(2) have "\<forall>k. Key k \<notin> set tail" by simp
        with "1.IH"(1) [OF split Cons True tail(1)]
        have "concat (map (emission m) tail) = startDelim p @ p1" by simp
        with tail(2) raw show ?thesis by simp
      next
        case False
        with "1.prems"(1) parts have "\<exists>k tail. ns = Key k # tail"
          by (subst (asm) parse.simps) (auto split: sum.splits list.splits)
        with "1.prems"(2) show ?thesis by auto
      qed
    qed
  qed
qed

lemma parse_literal_call_shorter:
  "SplitN2 raw sd = p0 # p1 # ps \<Longrightarrow> 0 < length p0 \<Longrightarrow> length (sd @ p1) < length raw"
  by (auto dest: SplitN2_two_length)

lemma parse_key_call_shorter:
  assumes "SplitN2 raw sd = p0 # p1 # ps" "\<not> 0 < length p0" "SplitN2 p1 ed = k0 # rest # ks"
  shows "length rest < length raw"
  using SplitN2_two [OF assms(1)] SplitN2_two [OF assms(3)] assms(2) by auto

lemma parse_fuel_enough: "length raw < fuel \<Longrightarrow> parse_fuel fuel p raw = Some (parse p raw)"
proof (induction fuel arbitrary: raw)
  case 0
  then show ?case by simp
next
  case (Suc fuel)
  show ?case
  proof (cases "SplitN2 raw (startDelim p)")
    case Nil
    then show ?thesis by (subst parse.simps) simp
  next
    case (Cons p0 ps)
    note split = Cons
    show ?thesis
    proof (cases ps)
      case Nil
      with split show ?thesis by (subst parse.simps) simp
    next
      case (Cons p1 ps')
      with split have parts: "SplitN2 raw (startDelim p) = p0 # p1 # ps'" by simp
      show ?thesis
      proof (cases "0 < length p0")
        case True
        with parts have "length (startDelim p @ p1) < length raw"
          by (rule parse_literal_call_shorter)
        with Suc.prems have "length (startDelim p @ p1) < fuel" by simp
        then have "parse_fuel fuel p (startDelim p @ p1) = Some (parse p (startDelim p @ p1))"
          by (rule Suc.IH)
        with parts True show ?thesis
          by (subst parse.simps) (simp split: sum.splits)
      next
        case False
        note empty = False
        show ?thesis
        proof (cases "SplitN2 p1 (endDelim p)")
          case Nil
          with parts empty show ?thesis by (subst parse.simps) simp
        next
          case (Cons k0 ks)
          note split_end = Cons
          show ?thesis
          proof (cases ks)
            case Nil
            with parts empty split_end show ?thesis by (subst parse.simps) simp
          next
            case (Cons rest ks')
            with split_end have e: "SplitN2 p1 (endDelim p) = k0 # rest # ks'" by simp
            from parts empty e have "length rest < length raw"
              by (rule parse_key_call_shorter)
            with Suc.prems have "length rest < fuel" by simp
            then have "parse_fuel fuel p rest = Some (parse p rest)" by (rule Suc.IH)
            with parts empty e show ?thesis
              by (subst parse.simps) (simp split: sum.splits)
          qed
        qed
      qed
    qed
  qed
qed

lemma Trim_spaces: "Trim (replicate n CHR '' '') '' '' = []"
  by (simp add: Trim_def dropWhile_eq_Nil_conv)

lemma only_spaces_replicate: "only_spaces s \<Longrightarrow> s = replicate (length s) CHR '' ''"
  by (induction s) (simp_all add: only_spaces_def)

lemma prefix_after_spaces:
  assumes "prefix sep (replicate j CHR '' '' @ sep @ post)" "0 < j"
  shows "only_spaces sep"
proof -
  have "t < length sep \<longrightarrow> sep ! t = CHR '' ''" for t
  proof (induction t rule: less_induct)
    case (less t)
    show ?case
    proof
      assume t: "t < length sep"
      from assms(1) obtain zs where "replicate j CHR '' '' @ sep @ post = sep @ zs"
        by (auto simp: prefix_def)
      then have "(replicate j CHR '' '' @ sep @ post) ! t = (sep @ zs) ! t" by simp
      with t have eq: "sep ! t = (replicate j CHR '' '' @ sep @ post) ! t"
        by (simp add: nth_append)
      show "sep ! t = CHR '' ''"
      proof (cases "t < j")
        case True
        with eq show ?thesis by (simp add: nth_append)
      next
        case False
        with t assms(2) have lt: "t - j < t" "t - j < length sep" by simp_all
        with less.IH have "sep ! (t - j) = CHR '' ''" by blast
        with eq False lt(2) show ?thesis by (simp add: nth_append)
      qed
    qed
  qed
  then show ?thesis
    by (auto simp: only_spaces_def in_set_conv_nth)
qed

lemma no_earlier_after_spaces:
  "\<not> only_spaces sep \<Longrightarrow> no_earlier sep (replicate n CHR '' '') post"
proof (induction n)
  case 0
  show ?case by simp
next
  case (Suc n)
  have "\<not> prefix sep (replicate (Suc n) CHR '' '' @ sep @ post)"
    using prefix_after_spaces [of sep "Suc n" post] Suc.prems by blast
  with Suc show ?case by (simp add: no_earlier_Cons)
qed

lemma parse_empty_placeholder:
  assumes "startDelim p \<noteq> []" "endDelim p \<noteq> []"
    "\<not> (only_spaces (startDelim p) \<and> only_spaces (endDelim p))"
  shows "parse p (startDelim p @ replicate n CHR '' '' @ endDelim p) =
     Inr (Key [] # lit (if only_spaces (endDelim p) then replicate n CHR '' '' else []))"
proof (cases "only_spaces (endDelim p)")
  case False
  then have "no_earlier (endDelim p) (replicate n CHR '' '') []"
    by (rule no_earlier_after_spaces)
  with assms(1,2)
  have "parse p ([] @ startDelim p @ replicate n CHR '' '' @ endDelim p @ []) =
     (case parse p [] of
        Inl err \<Rightarrow> Inl err
      | Inr tail \<Rightarrow> Inr (lit [] @ Key (Trim (replicate n CHR '' '') '' '') # tail))"
    by (intro parse_chunk) simp_all
  with assms(1) False show ?thesis
    by (simp add: parse_empty Trim_spaces lit_def)
next
  case True
  with assms(3) have "\<not> only_spaces (startDelim p)" by simp
  then have "\<not> set (startDelim p) \<subseteq> set (replicate n CHR '' '')"
    by (auto simp: only_spaces_def)
  then have nosub: "\<not> sublist (startDelim p) (replicate n CHR '' '')"
    using set_mono_sublist by blast
  from True have "endDelim p = replicate (length (endDelim p)) CHR '' ''"
    by (rule only_spaces_replicate)
  then have "replicate n CHR '' '' @ endDelim p = endDelim p @ replicate n CHR '' ''"
    by (metis replicate_add add.commute)
  moreover from assms(1,2)
  have "parse p ([] @ startDelim p @ [] @ endDelim p @ replicate n CHR '' '') =
     (case parse p (replicate n CHR '' '') of
        Inl err \<Rightarrow> Inl err
      | Inr tail \<Rightarrow> Inr (lit [] @ Key (Trim [] '' '') # tail))"
    by (intro parse_chunk) simp_all
  ultimately show ?thesis
    using True assms(1) nosub by (simp add: parse_no_start Trim_def lit_def)
qed

lemma SplitN2_nonempty_sep: "sep \<noteq> [] \<Longrightarrow> SplitN2 s sep \<noteq> []"
  by (simp add: SplitN2_def split: option.splits)

lemma parse_no_panic:
  assumes "startDelim p \<noteq> []" "endDelim p \<noteq> []"
  shows "(\<exists>ns. parse p raw = Inr ns) \<or> parse p raw = Inl (ErrTagNotClosed (endDelim p))"
  using assms
proof (induction p raw rule: parse.induct)
  case (1 p raw)
  show ?case
  proof (cases "SplitN2 raw (startDelim p)")
    case Nil
    with "1.prems"(1) show ?thesis by (simp add: SplitN2_nonempty_sep)
  next
    case (Cons p0 ps)
    note split = Cons
    show ?thesis
    proof (cases ps)
      case Nil
      with split show ?thesis by (subst parse.simps) simp
    next
      case (Cons p1 ps')
      with split have parts: "SplitN2 raw (startDelim p) = p0 # p1 # ps'" by simp
      show ?thesis
      proof (cases "0 < length p0")
        case True
        from "1.IH"(1) [OF split Cons True "1.prems"]
        have "(\<exists>ns. parse p (startDelim p @ p1) = Inr ns)
            \<or> parse p (startDelim p @ p1) = Inl (ErrTagNotClosed (endDelim p))" .
        moreover have "parse p raw =
            (case parse p (startDelim p @ p1) of
               Inl err \<Rightarrow> Inl err
             | Inr tail \<Rightarrow> Inr (Val p0 # tail))"
          using parts True by (subst parse.simps) simp
        ultimately show ?thesis by auto
      next
        case False
        note empty = False
        show ?thesis
        proof (cases "SplitN2 p1 (endDelim p)")
          case Nil
          with "1.prems"(2) show ?thesis by (simp add: SplitN2_nonempty_sep)
        next
          case (Cons k0 ks)
          note split_end = Cons
          show ?thesis
          proof (cases ks)
            case Nil
            with parts empty split_end show ?thesis by (subst parse.simps) simp
          next
            case (Cons rest ks')
            from "1.IH"(2) [OF split \<open>ps = p1 # ps'\<close> empty split_end Cons "1.prems"]
            have "(\<exists>ns. parse p rest = Inr ns)
                \<or> parse p rest = Inl (ErrTagNotClosed (endDelim p))" .
            moreover have "parse p raw =
                (case parse p rest of
                   Inl err \<Rightarrow> Inl err
                 | Inr tail \<Rightarrow> Inr (Key (Trim k0 '' '') # tail))"
              using parts empty split_end Cons by (subst parse.simps) simp
            ultimately show ?thesis by auto
          qed
        qed
      qed
    qed
  qed
qed

text \<open>
  With an empty delimiter \<^verbatim>\<open>strings.SplitN\<close> can return no part at all, and the
  \<^verbatim>\<open>parts[0]\<close> that follows panics.
\<close>

lemma parse_panics_with_empty_delimiter:
  "parse (NewParser [] ''}}'') [] = Inl IndexOutOfRange"
  "parse (NewParser ''{{'' []) ''{{'' = Inl IndexOutOfRange"
  "parse_fuel (Suc (length ''{{'')) (NewParser ''{{'' []) ''{{'' = Some (Inl IndexOutOfRange)"
  by (simp_all add: NewParser_def parse.simps SplitN2_def explode2_def)

section \<open>Facts about injection and the keys\<close>

lemma inject_nodes_all_bound:
  "(\<forall>k. Key k \<in> set ns \<longrightarrow> m k \<noteq> None) \<Longrightarrow>
     inject_nodes ns m res = Inr (res @ concat (map (emission m) ns))"
proof (induction ns arbitrary: res)
  case Nil
  then show ?case by simp
next
  case (Cons n ns)
  then show ?case by (cases n) auto
qed

lemma inject_nodes_append:
  "(\<forall>k. Key k \<in> set before \<longrightarrow> m k \<noteq> None) \<Longrightarrow>
     inject_nodes (before @ rest) m res =
       inject_nodes rest m (res @ concat (map (emission m) before))"
proof (induction before arbitrary: res)
  case Nil
  then show ?case by simp
next
  case (Cons n ns)
  then show ?case by (cases n) auto
qed

lemma first_unbound_key:
  "Key k \<in> set ns \<Longrightarrow> m k = None \<Longrightarrow>
     \<exists>before k' after. ns = before @ Key k' # after \<and> m k' = None \<and>
        (\<forall>j. Key j \<in> set before \<longrightarrow> m j \<noteq> None)"
proof (induction ns)
  case Nil
  then show ?case by simp
next
  case (Cons n ns)
  show ?case
  proof (cases "\<exists>j. n = Key j \<and> m j = None")
    case True
    then obtain j where "n = Key j" "m j = None" by blast
    then have "n # ns = [] @ Key j # ns \<and> m j = None \<and> (\<forall>i. Key i \<in> set [] \<longrightarrow> m i \<noteq> None)"
      by simp
    then show ?thesis by blast
  next
    case False
    with Cons.prems have "Key k \<in> set ns" by auto
    with Cons.IH Cons.prems(2) obtain before k' after where
      d: "ns = before @ Key k' # after" "m k' = None" "\<forall>j. Key j \<in> set before \<longrightarrow> m j \<noteq> None"
      by blast
    from d False have "n # ns = (n # before) @ Key k' # after \<and> m k' = None \<and>
        (\<forall>j. Key j \<in> set (n # before) \<longrightarrow> m j \<noteq> None)"
      by auto
    then show ?thesis by blast
  qed
qed

lemma keys_set_result:
  "set (keys_set ns acc) = set acc \<union> {k. Key k \<in> set ns}"
proof (induction ns acc rule: keys_set.induct)
  case (1 acc)
  then show ?case by simp
next
  case (2 s ns acc)
  then show ?case by auto
next
  case (3 v ns acc)
  then show ?case by auto
qed

lemma keys_set_distinct: "distinct acc \<Longrightarrow> distinct (keys_set ns acc)"
  by (induction ns acc rule: keys_set.induct) auto

section \<open>Facts about the environment source\<close>

text \<open>The model of \<open>trimQuotes\<close> agrees with the table of \<^verbatim>\<open>TestTrimQuotes\<close>.\<close>

lemma trimQuotes_test_table:
  "trimQuotes ''foo'' = ''foo''"
  "trimQuotes (squote # ''foo'' @ [squote]) = ''foo''"
  "trimQuotes (dquote # ''foo'' @ [dquote]) = ''foo''"
  "trimQuotes [] = []"
  "trimQuotes [squote, squote] = []"
  "trimQuotes [dquote, dquote] = []"
  "trimQuotes (squote # squote # ''foo'' @ [squote, squote]) = squote # ''foo'' @ [squote]"
  "trimQuotes (dquote # squote # ''foo'' @ [squote, dquote]) = squote # ''foo'' @ [squote]"
  "trimQuotes (dquote # dquote # ''foo'' @ [dquote, dquote]) = dquote # ''foo'' @ [dquote]"
  "trimQuotes (squote # dquote # ''foo'' @ [dquote, squote]) = dquote # ''foo'' @ [dquote]"
  "trimQuotes (squote # ''foo'') = squote # ''foo''"
  "trimQuotes (dquote # ''foo'') = dquote # ''foo''"
  "trimQuotes (''foo'' @ [squote]) = ''foo'' @ [squote]"
  "trimQuotes (''foo'' @ [dquote]) = ''foo'' @ [dquote]"
  "trimQuotes (squote # '' foo'' @ [squote]) = '' foo''"
  "trimQuotes (dquote # ''foo '' @ [dquote]) = ''foo ''"
  "trimQuotes ('' '' @ squote # ''foo'' @ [squote]) = '' '' @ squote # ''foo'' @ [squote]"
  "trimQuotes (dquote # ''foo'' @ [dquote] @ '' '') = dquote # ''foo'' @ [dquote] @ '' ''"
  by (simp_all add: trimQuotes_def squote_def dquote_def)

text \<open>The model of \<open>parseEnv\<close> agrees with the table of \<^verbatim>\<open>TestParseEnv\<close>.\<close>

lemma parseEnv_test_table:
  "parseEnv (''foo=bar'' @ [CHR 0x0A] @ ''baz={{path/to/secret}}'') =
     Inr [\<lparr>key = ''foo'', val = ''bar'', lineNumber = 1\<rparr>,
          \<lparr>key = ''baz'', val = ''{{path/to/secret}}'', lineNumber = 2\<rparr>]"
  "parseEnv ''key = value'' = Inr [\<lparr>key = ''key'', val = ''value'', lineNumber = 1\<rparr>]"
  "parseEnv ''key    = value'' = Inr [\<lparr>key = ''key'', val = ''value'', lineNumber = 1\<rparr>]"
  "parseEnv (''key'' @ [CHR 0x09] @ ''='' @ [CHR 0x09] @ ''value'') =
     Inr [\<lparr>key = ''key'', val = ''value'', lineNumber = 1\<rparr>]"
  "parseEnv (''key='' @ [squote] @ ''value'' @ [squote]) =
     Inr [\<lparr>key = ''key'', val = ''value'', lineNumber = 1\<rparr>]"
  "parseEnv (''key='' @ [dquote] @ ''value'' @ [dquote]) =
     Inr [\<lparr>key = ''key'', val = ''value'', lineNumber = 1\<rparr>]"
  "parseEnv (''key = '' @ [squote] @ ''value'' @ [squote]) =
     Inr [\<lparr>key = ''key'', val = ''value'', lineNumber = 1\<rparr>]"
  "parseEnv (''# database'' @ [CHR 0x0A] @ ''DB_USER = user'' @ [CHR 0x0A] @ ''DB_PASS = pass'') =
     Inr [\<lparr>key = ''DB_USER'', val = ''user'', lineNumber = 2\<rparr>,
          \<lparr>key = ''DB_PASS'', val = ''pass'', lineNumber = 3\<rparr>]"
  "parseEnv (''    # database'' @ [CHR 0x0A] @ ''DB_USER = user'') =
     Inr [\<lparr>key = ''DB_USER'', val = ''user'', lineNumber = 2\<rparr>]"
  "parseEnv ([CHR 0x09] @ ''# database'' @ [CHR 0x0A] @ ''DB_USER = user'') =
     Inr [\<lparr>key = ''DB_USER'', val = ''user'', lineNumber = 2\<rparr>]"
  "parseEnv (''foo=bar'' @ [CHR 0x0A, CHR 0x0A] @ ''bar=baz'') =
     Inr [\<lparr>key = ''foo'', val = ''bar'', lineNumber = 1\<rparr>,
          \<lparr>key = ''bar'', val = ''baz'', lineNumber = 3\<rparr>]"
  "parseEnv (''foo=bar'' @ [CHR 0x0A] @ ''    '' @ [CHR 0x0A] @ ''bar = baz'') =
     Inr [\<lparr>key = ''foo'', val = ''bar'', lineNumber = 1\<rparr>,
          \<lparr>key = ''bar'', val = ''baz'', lineNumber = 3\<rparr>]"
  "parseEnv ''foobar'' = Inl (ErrTemplate 1 ErrNotKeyValuePairs)"
  by (simp_all add: parseEnv_def parseEnvLine_def skippedLine_def whitespace_def trimSpace_def
      trimQuotes_def squote_def dquote_def)

text \<open>
  The model of \<open>NewEnv\<close> on inputs of \<^verbatim>\<open>TestNewEnv\<close>, with the line dialect, \<^verbatim>\<open>${\<close> and
  \<^verbatim>\<open>}\<close> around a template variable and \<^verbatim>\<open>{{\<close> and \<^verbatim>\<open>}}\<close> around a secret path.
\<close>

lemma NewEnv_test_table:
  "NewEnv \<lparr>useMapping = (\<lambda>raw. False), parseYML = (\<lambda>raw. Inr []),
           varParser = NewParser ''${'' ''}'', secretParser = NewParser ''{{'' ''}}''\<rparr>
      ''baz={{${app}/db/pass}}'' [(''app'', ''company/application'')] =
     Inr [''baz'' \<mapsto> \<lparr>nodes = [Key ''company/application/db/pass'']\<rparr>]"
  "NewEnv \<lparr>useMapping = (\<lambda>raw. False), parseYML = (\<lambda>raw. Inr []),
           varParser = NewParser ''${'' ''}'', secretParser = NewParser ''{{'' ''}}''\<rparr>
      ''foo={{path/to/secret'' [] = Inl (ErrTemplate 1 (ErrTagNotClosed ''}}''))"
  by (simp_all add: NewEnv_def validIdentifier_def identStart_def identChar_def parseEnv_def
      parseEnvLine_def skippedLine_def whitespace_def trimSpace_def trimQuotes_def squote_def
      dquote_def NewParser_def Parse_def parse.simps SplitN2_def Trim_def Inject_def
      tagLine_def unknownLine_def)

lemma trimQuotes_quoted:
  "q = squote \<or> q = dquote \<Longrightarrow> trimQuotes (q # inner @ [q]) = inner"
  by (auto simp: trimQuotes_def)

lemma outer_pair:
  assumes "2 \<le> length s"
  shows "s = hd s # butlast (tl s) @ [last s]"
proof -
  from assms obtain a t where s: "s = a # t" by (cases s) auto
  with assms have t: "t \<noteq> []" by auto
  then have "t = butlast t @ [last t]" by simp
  with s t show ?thesis by simp
qed

lemma takeWhile_first_equals:
  "CHR ''='' \<notin> set k \<Longrightarrow> takeWhile (\<lambda>c. c \<noteq> CHR ''='') (k @ CHR ''='' # v) = k"
  by (induction k) auto

lemma dropWhile_first_equals:
  "CHR ''='' \<notin> set k \<Longrightarrow> dropWhile (\<lambda>c. c \<noteq> CHR ''='') (k @ CHR ''='' # v) = CHR ''='' # v"
  by (induction k) auto

lemma parseEnvLine_key_value:
  assumes "\<not> skippedLine (k @ ''='' @ v)" "CHR ''='' \<notin> set k"
  shows "parseEnvLine i (k @ ''='' @ v) =
     Inr (Some \<lparr>key = trimSpace k, val = trimQuotes (trimSpace v), lineNumber = i\<rparr>)"
  using assms
  by (simp add: parseEnvLine_def takeWhile_first_equals dropWhile_first_equals)

lemma parseEnvLines_entry:
  assumes "parseEnvLines i ls = Inr vars" "n < length ls"
    "parseEnvLine (i + int n) (ls ! n) = Inr (Some v)"
  shows "v \<in> set vars"
  using assms
proof (induction ls arbitrary: i n vars)
  case Nil
  then show ?case by simp
next
  case (Cons l ls)
  from Cons.prems(1) have "\<exists>rest. parseEnvLines (i + 1) ls = Inr rest \<and> set rest \<subseteq> set vars"
    by (auto split: sum.splits option.splits)
  then obtain rest where
    rest: "parseEnvLines (i + 1) ls = Inr rest" "set rest \<subseteq> set vars"
    by blast
  show ?case
  proof (cases n)
    case 0
    with Cons.prems show ?thesis by (auto split: sum.splits option.splits)
  next
    case (Suc n')
    with Cons.prems(2,3) have "n' < length ls"
        "parseEnvLine (i + 1 + int n') (ls ! n') = Inr (Some v)"
      by (simp_all add: add.assoc)
    with Cons.IH [OF rest(1)] have "v \<in> set rest" by blast
    with rest(2) show ?thesis by blast
  qed
qed

lemma find_invalid:
  "\<exists>k \<in> set ks. \<not> validIdentifier k \<Longrightarrow>
     \<exists>k. find (\<lambda>k. \<not> validIdentifier k) ks = Some k \<and> k \<in> set ks \<and> \<not> validIdentifier k"
  by (induction ks) auto

section \<open>The properties of the specification\<close>

text \<open>
  Claim C1. If some key node of the template has a key that the replacements do not bind,
  \<open>Inject\<close> fails with \<open>ErrKeyNotFound\<close> for the key of the first such node in node
  order (every key node before it is bound) and returns no string. If every key of the
  template is bound, \<open>Inject\<close> succeeds and returns the concatenation, in order, of what
  each node emits.
\<close>

theorem Inject_first_missing_key_or_concat:
  "((\<exists>k. Key k \<in> set (nodes t) \<and> m k = None) \<longrightarrow>
      (\<exists>before k after. nodes t = before @ Key k # after \<and> m k = None \<and>
         (\<forall>j. Key j \<in> set before \<longrightarrow> m j \<noteq> None) \<and>
         Inject t m = Inl (ErrKeyNotFound k)))
   \<and> ((\<forall>k. Key k \<in> set (nodes t) \<longrightarrow> m k \<noteq> None) \<longrightarrow>
        Inject t m = Inr (concat (map (emission m) (nodes t))))"
proof (intro conjI impI)
  assume "\<exists>k. Key k \<in> set (nodes t) \<and> m k = None"
  then obtain k0 where "Key k0 \<in> set (nodes t)" "m k0 = None" by blast
  then obtain before k after where
    d: "nodes t = before @ Key k # after" "m k = None"
       "\<forall>j. Key j \<in> set before \<longrightarrow> m j \<noteq> None"
    using first_unbound_key [of k0 "nodes t" m] by blast
  have "Inject t m = Inl (ErrKeyNotFound k)"
    using d by (simp add: Inject_def inject_nodes_append)
  with d show "\<exists>before k after. nodes t = before @ Key k # after \<and> m k = None \<and>
         (\<forall>j. Key j \<in> set before \<longrightarrow> m j \<noteq> None) \<and>
         Inject t m = Inl (ErrKeyNotFound k)"
    by blast
next
  assume "\<forall>k. Key k \<in> set (nodes t) \<longrightarrow> m k \<noteq> None"
  then show "Inject t m = Inr (concat (map (emission m) (nodes t)))"
    by (simp add: Inject_def inject_nodes_all_bound)
qed

theorem Inject_first_missing_key_or_concat_witness:
  "(\<exists>k. Key k \<in> set (nodes \<lparr>nodes = [Key ''a'', Val ''='', Key ''b'', Key ''c'']\<rparr>)
        \<and> [''a'' \<mapsto> ''1''] k = None)
   \<and> Inject \<lparr>nodes = [Key ''a'', Val ''='', Key ''b'', Key ''c'']\<rparr> [''a'' \<mapsto> ''1'']
      = Inl (ErrKeyNotFound ''b'')
   \<and> Inject \<lparr>nodes = [Val ''baz='', Key ''path/to/secret'']\<rparr> [''path/to/secret'' \<mapsto> ''val'']
      = Inr ''baz=val''"
proof -
  let ?t = "\<lparr>nodes = [Key ''a'', Val ''='', Key ''b'', Key ''c'']\<rparr>"
  let ?m = "[''a'' \<mapsto> ''1'']"
  have unbound: "\<exists>k. Key k \<in> set (nodes ?t) \<and> ?m k = None"
    by (rule exI [of _ "''b''"]) simp
  with Inject_first_missing_key_or_concat [of ?t ?m]
  obtain before k after where d: "nodes ?t = before @ Key k # after" "?m k = None"
      "\<forall>j. Key j \<in> set before \<longrightarrow> ?m j \<noteq> None" "Inject ?t ?m = Inl (ErrKeyNotFound k)"
    by blast
  from d(4) have "Inject ?t ?m = Inl (ErrKeyNotFound ''b'')"
    by (auto simp: Inject_def)
  moreover have "Inject \<lparr>nodes = [Val ''baz='', Key ''path/to/secret'']\<rparr>
      [''path/to/secret'' \<mapsto> ''val''] = Inr ''baz=val''"
    using Inject_first_missing_key_or_concat
      [of "\<lparr>nodes = [Val ''baz='', Key ''path/to/secret'']\<rparr>" "[''path/to/secret'' \<mapsto> ''val'']"]
    by simp
  ultimately show ?thesis using unbound by blast
qed

text \<open>
  Claim C2, for a non-empty start delimiter. The raw string is a text of closed
  placeholders, then a literal text \<open>pre\<close>, then a start delimiter that is the first one
  in what remains, then a rest in which the end delimiter does not occur. \<open>Parse\<close> fails
  with \<open>ErrTagNotClosed\<close> carrying the end delimiter, and returns no template.
\<close>

theorem Parse_unterminated_placeholder:
  assumes "startDelim p \<noteq> []"
    and "well_delimited p cs (pre @ startDelim p @ rest)"
    and "no_earlier (startDelim p) pre rest"
    and "\<not> sublist (endDelim p) rest"
  shows "Parse p (closed_text p cs @ pre @ startDelim p @ rest) =
           Inl (ErrTagNotClosed (endDelim p))"
proof -
  from assms(4) have ne: "endDelim p \<noteq> []" by auto
  have "parse p (pre @ startDelim p @ rest) = Inl (ErrTagNotClosed (endDelim p))"
    using assms(1,3,4) by (rule parse_unterminated)
  then have "parse p (closed_text p cs @ pre @ startDelim p @ rest) =
      Inl (ErrTagNotClosed (endDelim p))"
    using parse_closed [OF assms(1) ne assms(2)] by simp
  then show ?thesis by (rule Parse_Inl)
qed

theorem Parse_unterminated_placeholder_witness:
  "startDelim (NewParser ''{{'' ''}}'') \<noteq> []
   \<and> well_delimited (NewParser ''{{'' ''}}'') [(''a='', '' x '')] (''b='' @ ''{{'' @ ''y}'')
   \<and> no_earlier ''{{'' ''b='' ''y}''
   \<and> \<not> sublist ''}}'' ''y}''
   \<and> Parse (NewParser ''{{'' ''}}'') ''a={{ x }}b={{y}'' = Inl (ErrTagNotClosed ''}}'')"
  using Parse_unterminated_placeholder
    [of "NewParser ''{{'' ''}}''" "[(''a='', '' x '')]" "''b=''" "''y}''"]
  by (simp add: NewParser_def no_earlier_iff_Index sublist_code)

text \<open>
  The claim is stated for every delimiter pair. With an empty start delimiter
  \<^verbatim>\<open>strings.SplitN\<close> cuts after the first rune, so \<open>parse\<close> never opens a placeholder:
  the empty start delimiter occurs in \<^verbatim>\<open>"a"\<close>, no \<^verbatim>\<open>"}}"\<close> follows it, and \<open>Parse\<close>
  succeeds with one value node.
\<close>

theorem Parse_unterminated_placeholder_counterexample:
  "well_delimited (NewParser [] ''}}'') [] ([] @ startDelim (NewParser [] ''}}'') @ ''a'')
   \<and> no_earlier (startDelim (NewParser [] ''}}'')) [] ''a''
   \<and> \<not> sublist (endDelim (NewParser [] ''}}'')) ''a''
   \<and> Parse (NewParser [] ''}}'')
        (closed_text (NewParser [] ''}}'') [] @ [] @ startDelim (NewParser [] ''}}'') @ ''a'')
       = Inr \<lparr>nodes = [Val ''a'']\<rparr>"
  by (simp add: NewParser_def Parse_def parse.simps SplitN2_def explode2_def rune_size_def
      sublist_code)

text \<open>
  Claim C3. \<open>Keys\<close> returns exactly the keys of the key nodes of the template, each of
  them once; nothing is said about their order.
\<close>

theorem Keys_exactly_the_distinct_keys:
  "set (Keys t) = {k. Key k \<in> set (nodes t)} \<and> distinct (Keys t)"
  by (simp add: Keys_def keys_set_result keys_set_distinct)

text \<open>
  Claim C4. If the parse of a raw string yields a template without key nodes, \<open>Inject\<close>
  succeeds for every replacement map and returns the raw string unchanged. In particular
  this is so for every raw string in which the start delimiter does not occur: its parse
  succeeds and has no key node.
\<close>

theorem Inject_without_placeholders_returns_raw:
  "(Parse p raw = Inr t \<and> (\<forall>k. Key k \<notin> set (nodes t)) \<longrightarrow> Inject t m = Inr raw)
   \<and> (\<not> sublist (startDelim p) raw \<longrightarrow>
        (\<exists>t. Parse p raw = Inr t \<and> (\<forall>k. Key k \<notin> set (nodes t)) \<and> Inject t m = Inr raw))"
proof (intro conjI impI)
  assume a: "Parse p raw = Inr t \<and> (\<forall>k. Key k \<notin> set (nodes t))"
  then have "parse p raw = Inr (nodes t)"
    by (auto simp: Parse_def split: sum.splits)
  with a have "concat (map (emission m) (nodes t)) = raw"
    by (intro parse_literal_text) simp_all
  moreover from a have "Inject t m = Inr (concat (map (emission m) (nodes t)))"
    by (simp add: Inject_def inject_nodes_all_bound)
  ultimately show "Inject t m = Inr raw" by simp
next
  assume a: "\<not> sublist (startDelim p) raw"
  then have "startDelim p \<noteq> []" by auto
  with a have "parse p raw = Inr (lit raw)" by (simp add: parse_no_start)
  then have "Parse p raw = Inr \<lparr>nodes = lit raw\<rparr>
      \<and> (\<forall>k. Key k \<notin> set (nodes \<lparr>nodes = lit raw\<rparr>))
      \<and> Inject \<lparr>nodes = lit raw\<rparr> m = Inr raw"
    by (simp add: Parse_def lit_def Inject_def)
  then show "\<exists>t. Parse p raw = Inr t \<and> (\<forall>k. Key k \<notin> set (nodes t)) \<and> Inject t m = Inr raw"
    by blast
qed

theorem Inject_without_placeholders_returns_raw_witness:
  "Inject \<lparr>nodes = [Val ''foo=bar'']\<rparr> [''k'' \<mapsto> ''v''] = Inr ''foo=bar''
   \<and> (\<exists>t. Parse (NewParser ''{{'' ''}}'') ''a{b}}'' = Inr t \<and> (\<forall>k. Key k \<notin> set (nodes t))
          \<and> Inject t Map.empty = Inr ''a{b}}'')"
  using Inject_without_placeholders_returns_raw
      [of "NewParser ''{{'' ''}}''" "''foo=bar''" "\<lparr>nodes = [Val ''foo=bar'']\<rparr>" "[''k'' \<mapsto> ''v'']"]
    Inject_without_placeholders_returns_raw
      [of "NewParser ''{{'' ''}}''" "''a{b}}''" _ Map.empty]
  by (simp add: NewParser_def Parse_def parse.simps SplitN2_def sublist_code)

text \<open>
  Claim C5. After a text of closed placeholders and a literal text \<open>pre\<close>, a start
  delimiter opens a placeholder; a second start delimiter follows it (after a text \<open>a\<close>)
  before the next end delimiter. \<open>Parse\<close> opens no nested placeholder: the key of the
  placeholder is the whole span between the opening start delimiter and the next end
  delimiter, the second start delimiter included as it is, with the spaces at the two ends
  of the span trimmed; parsing goes on after that end delimiter. An opening start delimiter
  is a non-empty one: with an empty start delimiter the parser opens no placeholder.
\<close>

theorem Parse_second_start_delimiter_is_key_text:
  assumes "startDelim p \<noteq> []"
    and "well_delimited p cs
           (pre @ startDelim p @ a @ startDelim p @ b @ endDelim p @ rest)"
    and "no_earlier (startDelim p) pre (a @ startDelim p @ b @ endDelim p @ rest)"
    and "no_earlier (endDelim p) (a @ startDelim p @ b) rest"
  shows "Parse p (closed_text p cs @ pre @ startDelim p @ a @ startDelim p @ b @ endDelim p @ rest) =
           (case Parse p rest of
              Inl err \<Rightarrow> Inl err
            | Inr t \<Rightarrow>
                Inr \<lparr>nodes = closed_nodes cs @ lit pre @
                               Key (Trim (a @ startDelim p @ b) '' '') # nodes t\<rparr>)"
proof -
  from assms(1,4) have ne: "endDelim p \<noteq> []"
    by (auto simp: no_earlier_empty_sep)
  have "parse p (pre @ startDelim p @ (a @ startDelim p @ b) @ endDelim p @ rest) =
     (case parse p rest of
        Inl err \<Rightarrow> Inl err
      | Inr tail \<Rightarrow> Inr (lit pre @ Key (Trim (a @ startDelim p @ b) '' '') # tail))"
    using assms(1) ne assms(3,4) by (intro parse_chunk) simp_all
  then show ?thesis
    using parse_closed [OF assms(1) ne assms(2)]
    by (simp add: Parse_def split: sum.splits)
qed

theorem Parse_second_start_delimiter_is_key_text_witness:
  "startDelim (NewParser ''{{'' ''}}'') \<noteq> []
   \<and> well_delimited (NewParser ''{{'' ''}}'') [(''a='', '' x '')]
        (''b='' @ ''{{'' @ '' y'' @ ''{{'' @ ''z '' @ ''}}'' @ ''!'')
   \<and> no_earlier ''{{'' ''b='' ('' y'' @ ''{{'' @ ''z '' @ ''}}'' @ ''!'')
   \<and> no_earlier ''}}'' ('' y'' @ ''{{'' @ ''z '') ''!''
   \<and> Parse (NewParser ''{{'' ''}}'') ''a={{ x }}b={{ y{{z }}!'' =
        Inr \<lparr>nodes = [Val ''a='', Key ''x'', Val ''b='', Key ''y{{z'', Val ''!'']\<rparr>"
  using Parse_second_start_delimiter_is_key_text
    [of "NewParser ''{{'' ''}}''" "[(''a='', '' x '')]" "''b=''" "'' y''" "''z ''" "''!''"]
  by (simp add: NewParser_def no_earlier_iff_Index Parse_def parse.simps SplitN2_def lit_def
      Trim_def)

text \<open>
  Claim C6. For a string of at least two characters that starts and ends with a single
  quote, or starts and ends with a double quote, \<open>trimQuotes\<close> returns the string without
  exactly that outermost pair: the string is the quote, the result, the quote. The interior
  is returned as it is, whatever quotes or whitespace it holds. Every other string is
  returned unchanged.
\<close>

theorem trimQuotes_strips_one_outer_pair:
  "((q = squote \<or> q = dquote) \<and> 2 \<le> length s \<and> hd s = q \<and> last s = q \<longrightarrow>
        s = q # trimQuotes s @ [q])
   \<and> ((q = squote \<or> q = dquote) \<longrightarrow> trimQuotes (q # inner @ [q]) = inner)
   \<and> (\<not> (2 \<le> length s \<and>
           ((hd s = squote \<and> last s = squote) \<or> (hd s = dquote \<and> last s = dquote))) \<longrightarrow>
        trimQuotes s = s)"
proof (intro conjI impI)
  assume a: "(q = squote \<or> q = dquote) \<and> 2 \<le> length s \<and> hd s = q \<and> last s = q"
  then have "trimQuotes s = butlast (tl s)" by (auto simp: trimQuotes_def)
  with a outer_pair [of s] show "s = q # trimQuotes s @ [q]" by simp
next
  assume "q = squote \<or> q = dquote"
  then show "trimQuotes (q # inner @ [q]) = inner" by (rule trimQuotes_quoted)
next
  assume "\<not> (2 \<le> length s \<and>
           ((hd s = squote \<and> last s = squote) \<or> (hd s = dquote \<and> last s = dquote)))"
  then show "trimQuotes s = s" by (auto simp: trimQuotes_def)
qed

theorem trimQuotes_strips_one_outer_pair_witness:
  "squote # squote # ''foo'' @ [squote, squote]
     = squote # trimQuotes (squote # squote # ''foo'' @ [squote, squote]) @ [squote]
   \<and> trimQuotes (dquote # (squote # '' foo '' @ [squote]) @ [dquote]) = squote # '' foo '' @ [squote]
   \<and> trimQuotes (squote # ''foo'' @ [dquote]) = squote # ''foo'' @ [dquote]"
  using trimQuotes_strips_one_outer_pair
      [of squote "squote # squote # ''foo'' @ [squote, squote]" "[]"]
    trimQuotes_strips_one_outer_pair [of dquote "[]" "squote # '' foo '' @ [squote]"]
    trimQuotes_strips_one_outer_pair [of squote "squote # ''foo'' @ [dquote]" "[]"]
  by (simp add: squote_def dquote_def)

text \<open>
  Claim C7. A line of the line dialect that is not skipped and contains \<^verbatim>\<open>=\<close> is cut at
  its first \<^verbatim>\<open>=\<close>: the key is the text before it with the surrounding whitespace
  trimmed, the value is all the text after it, later \<^verbatim>\<open>=\<close> included, trimmed of
  surrounding whitespace and then of its quotes. When \<open>parseEnv\<close> succeeds on a document,
  the entry of each such line, with the number of the line, is in the result. In particular
  \<^verbatim>\<open>foo=foo=bar\<close> yields the one entry with key \<^verbatim>\<open>foo\<close> and value \<^verbatim>\<open>foo=bar\<close>.
\<close>

theorem parseEnv_splits_on_first_equals:
  "(\<not> skippedLine (k @ ''='' @ v) \<and> CHR ''='' \<notin> set k \<longrightarrow>
      parseEnvLine i (k @ ''='' @ v) =
        Inr (Some \<lparr>key = trimSpace k, val = trimQuotes (trimSpace v), lineNumber = i\<rparr>))
   \<and> (parseEnv raw = Inr vars \<and> n < length (splitLines raw) \<and>
        splitLines raw ! n = k @ ''='' @ v \<and>
        \<not> skippedLine (k @ ''='' @ v) \<and> CHR ''='' \<notin> set k \<longrightarrow>
      \<lparr>key = trimSpace k, val = trimQuotes (trimSpace v), lineNumber = 1 + int n\<rparr> \<in> set vars)
   \<and> parseEnv ''foo=foo=bar'' = Inr [\<lparr>key = ''foo'', val = ''foo=bar'', lineNumber = 1\<rparr>]"
proof (intro conjI impI)
  assume "\<not> skippedLine (k @ ''='' @ v) \<and> CHR ''='' \<notin> set k"
  then show "parseEnvLine i (k @ ''='' @ v) =
        Inr (Some \<lparr>key = trimSpace k, val = trimQuotes (trimSpace v), lineNumber = i\<rparr>)"
    using parseEnvLine_key_value [of k v i] by simp
next
  assume a: "parseEnv raw = Inr vars \<and> n < length (splitLines raw) \<and>
        splitLines raw ! n = k @ ''='' @ v \<and>
        \<not> skippedLine (k @ ''='' @ v) \<and> CHR ''='' \<notin> set k"
  then have "parseEnvLine (1 + int n) (splitLines raw ! n) =
      Inr (Some \<lparr>key = trimSpace k, val = trimQuotes (trimSpace v), lineNumber = 1 + int n\<rparr>)"
    using parseEnvLine_key_value [of k v "1 + int n"] by simp
  with a show "\<lparr>key = trimSpace k, val = trimQuotes (trimSpace v), lineNumber = 1 + int n\<rparr>
      \<in> set vars"
    using parseEnvLines_entry [of 1 "splitLines raw" vars n] by (simp add: parseEnv_def)
next
  show "parseEnv ''foo=foo=bar'' = Inr [\<lparr>key = ''foo'', val = ''foo=bar'', lineNumber = 1\<rparr>]"
    by (simp add: parseEnv_def parseEnvLine_def skippedLine_def whitespace_def trimSpace_def
        trimQuotes_def squote_def dquote_def)
qed

theorem parseEnv_splits_on_first_equals_witness:
  "\<not> skippedLine (''DB_URL '' @ ''='' @ '' a=b=c'') \<and> CHR ''='' \<notin> set ''DB_URL ''
   \<and> parseEnvLine 7 ''DB_URL = a=b=c'' =
        Inr (Some \<lparr>key = ''DB_URL'', val = ''a=b=c'', lineNumber = 7\<rparr>)
   \<and> parseEnv (''# c'' @ [CHR 0x0A] @ ''x=1=2'') = Inr [\<lparr>key = ''x'', val = ''1=2'', lineNumber = 2\<rparr>]
   \<and> \<lparr>key = ''x'', val = ''1=2'', lineNumber = 2\<rparr>
        \<in> set [\<lparr>key = ''x'', val = ''1=2'', lineNumber = 2\<rparr>]"
  using parseEnv_splits_on_first_equals [of "''DB_URL ''" "'' a=b=c''" 7 "[]" "[]" 0]
    parseEnv_splits_on_first_equals [of "''x''" "''1=2''" 2 "''# c'' @ [CHR 0x0A] @ ''x=1=2''"
      "[\<lparr>key = ''x'', val = ''1=2'', lineNumber = 2\<rparr>]" 1]
  by (simp add: parseEnv_def parseEnvLine_def skippedLine_def whitespace_def trimSpace_def
      trimQuotes_def squote_def dquote_def)

text \<open>
  Claim C8. If some key of the template variables is not an identifier, \<open>NewEnv\<close> fails
  with \<open>ErrInvalidTemplateVar\<close> naming such a key, and it does so whatever the raw
  document, the dialect policy and the parsers are: the failure comes before any parsing of
  the raw document.
\<close>

theorem NewEnv_rejects_invalid_template_var:
  assumes "\<exists>k \<in> set (map fst templateVars). \<not> validIdentifier k"
  shows "\<exists>k \<in> set (map fst templateVars). \<not> validIdentifier k \<and>
           (\<forall>r raw. NewEnv r raw templateVars = Inl (ErrInvalidTemplateVar k))"
proof -
  from find_invalid [OF assms] obtain k where
    k: "find (\<lambda>k. \<not> validIdentifier k) (map fst templateVars) = Some k"
       "k \<in> set (map fst templateVars)" "\<not> validIdentifier k"
    by blast
  then have "\<forall>r raw. NewEnv r raw templateVars = Inl (ErrInvalidTemplateVar k)"
    by (simp add: NewEnv_def)
  with k(2,3) show ?thesis by blast
qed

theorem NewEnv_rejects_invalid_template_var_witness:
  "\<not> validIdentifier ''0foo'' \<and> \<not> validIdentifier ''foo@bar''
   \<and> NewEnv \<lparr>useMapping = (\<lambda>raw. False), parseYML = (\<lambda>raw. Inr []),
             varParser = NewParser ''${'' ''}'', secretParser = NewParser ''{{'' ''}}''\<rparr>
        ''foobar'' [(''0foo'', ''value'')] = Inl (ErrInvalidTemplateVar ''0foo'')
   \<and> NewEnv \<lparr>useMapping = (\<lambda>raw. False), parseYML = (\<lambda>raw. Inr []),
             varParser = NewParser ''${'' ''}'', secretParser = NewParser ''{{'' ''}}''\<rparr>
        ''foo=bar'' [(''foo@bar'', ''value'')] = Inl (ErrInvalidTemplateVar ''foo@bar'')"
  using NewEnv_rejects_invalid_template_var [of "[(''0foo'', ''value'')]"]
    NewEnv_rejects_invalid_template_var [of "[(''foo@bar'', ''value'')]"]
  by (simp add: validIdentifier_def identStart_def identChar_def)

text \<open>
  Claim C9. With non-empty delimiters, each recursive call of \<open>parse\<close> is on a strictly
  shorter string: the call after a literal text is on the start delimiter and the second
  part, the call after a key is on the text behind the end delimiter. So \<open>parse\<close>
  terminates: a recursion depth of the length of the raw string plus one is enough for it
  to return its result. And it returns normally: the result of \<open>parse\<close>, and so of
  \<open>Parse\<close>, is a node list (a template) or the error \<open>ErrTagNotClosed\<close> of the end
  delimiter, never the panic of an index out of range.
\<close>

theorem parse_terminates:
  assumes "startDelim p \<noteq> []" and "endDelim p \<noteq> []"
  shows "(\<forall>p0 p1. SplitN2 raw (startDelim p) = [p0, p1] \<and> 0 < length p0 \<longrightarrow>
            length (startDelim p @ p1) < length raw)
       \<and> (\<forall>p1 k0 rest. SplitN2 raw (startDelim p) = [[], p1] \<and>
            SplitN2 p1 (endDelim p) = [k0, rest] \<longrightarrow> length rest < length raw)
       \<and> parse_fuel (Suc (length raw)) p raw = Some (parse p raw)
       \<and> ((\<exists>ns. parse p raw = Inr ns) \<or> parse p raw = Inl (ErrTagNotClosed (endDelim p)))
       \<and> ((\<exists>t. Parse p raw = Inr t) \<or> Parse p raw = Inl (ErrTagNotClosed (endDelim p)))"
proof (intro conjI allI impI)
  fix p0 p1
  assume "SplitN2 raw (startDelim p) = [p0, p1] \<and> 0 < length p0"
  then show "length (startDelim p @ p1) < length raw"
    by (auto dest: parse_literal_call_shorter)
next
  fix p1 k0 rest
  assume "SplitN2 raw (startDelim p) = [[], p1] \<and> SplitN2 p1 (endDelim p) = [k0, rest]"
  then show "length rest < length raw"
    using parse_key_call_shorter [of raw "startDelim p" "[]" p1 "[]" "endDelim p" k0 rest "[]"]
    by simp
next
  show "parse_fuel (Suc (length raw)) p raw = Some (parse p raw)"
    by (rule parse_fuel_enough) simp
next
  show np: "(\<exists>ns. parse p raw = Inr ns) \<or> parse p raw = Inl (ErrTagNotClosed (endDelim p))"
    using assms by (rule parse_no_panic)
  then show "(\<exists>t. Parse p raw = Inr t) \<or> Parse p raw = Inl (ErrTagNotClosed (endDelim p))"
    by (auto simp: Parse_def)
qed

theorem parse_terminates_witness:
  "startDelim (NewParser ''{{'' ''}}'') \<noteq> [] \<and> endDelim (NewParser ''{{'' ''}}'') \<noteq> []
   \<and> SplitN2 ''a{{b}}'' ''{{'' = [''a'', ''b}}''] \<and> length (''{{'' @ ''b}}'') < length ''a{{b}}''
   \<and> SplitN2 ''{{b}}'' ''{{'' = [[], ''b}}''] \<and> SplitN2 ''b}}'' ''}}'' = [''b'', []]
   \<and> length ([] :: string) < length ''{{b}}''
   \<and> parse_fuel (Suc (length ''a{{b}}'')) (NewParser ''{{'' ''}}'') ''a{{b}}''
        = Some (Inr [Val ''a'', Key ''b''])
   \<and> Parse (NewParser ''{{'' ''}}'') ''a{{b}}'' = Inr \<lparr>nodes = [Val ''a'', Key ''b'']\<rparr>
   \<and> Parse (NewParser ''{{'' ''}}'') ''a{{b'' = Inl (ErrTagNotClosed ''}}'')"
  using parse_terminates [of "NewParser ''{{'' ''}}''" "''a{{b}}''"]
    parse_terminates [of "NewParser ''{{'' ''}}''" "''{{b}}''"]
    parse_terminates [of "NewParser ''{{'' ''}}''" "''a{{b''"]
  by (simp add: NewParser_def SplitN2_def parse.simps Trim_def Parse_def)

text \<open>
  Claim C10, for non-empty delimiters that do not both consist of spaces only. A start
  delimiter followed by any number of spaces (none included) and an end delimiter parses
  into a template whose first node is a key node with the empty key. \<open>Inject\<close> on that
  template fails with \<open>ErrKeyNotFound\<close> for the empty key when the replacements do not
  bind the empty key, and succeeds when they do.
\<close>

theorem Parse_empty_placeholder_key:
  assumes "startDelim p \<noteq> []" and "endDelim p \<noteq> []"
    and "\<not> (only_spaces (startDelim p) \<and> only_spaces (endDelim p))"
  shows "\<exists>t. Parse p (startDelim p @ replicate n CHR '' '' @ endDelim p) = Inr t
           \<and> Key [] \<in> set (nodes t)
           \<and> (m [] = None \<longrightarrow> Inject t m = Inl (ErrKeyNotFound []))
           \<and> (m [] \<noteq> None \<longrightarrow> (\<exists>out. Inject t m = Inr out))"
proof -
  define tail where "tail = lit (if only_spaces (endDelim p) then replicate n CHR '' '' else [])"
  have no_keys: "\<forall>k. Key k \<in> set tail \<longrightarrow> m k \<noteq> None"
    by (simp add: tail_def lit_def)
  have "Parse p (startDelim p @ replicate n CHR '' '' @ endDelim p) = Inr \<lparr>nodes = Key [] # tail\<rparr>"
    using parse_empty_placeholder [OF assms] by (simp add: Parse_def tail_def)
  moreover have "m [] = None \<longrightarrow> Inject \<lparr>nodes = Key [] # tail\<rparr> m = Inl (ErrKeyNotFound [])"
    by (simp add: Inject_def)
  moreover have "m [] \<noteq> None \<longrightarrow> (\<exists>out. Inject \<lparr>nodes = Key [] # tail\<rparr> m = Inr out)"
    using no_keys by (auto simp: Inject_def inject_nodes_all_bound)
  ultimately show ?thesis by auto
qed

theorem Parse_empty_placeholder_key_witness:
  "startDelim (NewParser ''{{'' ''}}'') \<noteq> [] \<and> endDelim (NewParser ''{{'' ''}}'') \<noteq> []
   \<and> \<not> (only_spaces ''{{'' \<and> only_spaces ''}}'')
   \<and> (\<exists>t. Parse (NewParser ''{{'' ''}}'') ''{{   }}'' = Inr t \<and> Key [] \<in> set (nodes t)
          \<and> Inject t Map.empty = Inl (ErrKeyNotFound [])
          \<and> (\<exists>out. Inject t [[] \<mapsto> ''v''] = Inr out))"
proof -
  have "\<exists>t. Parse (NewParser ''{{'' ''}}'') ''{{   }}'' = Inr t \<and> Key [] \<in> set (nodes t)
          \<and> Inject t Map.empty = Inl (ErrKeyNotFound [])
          \<and> (\<exists>out. Inject t [[] \<mapsto> ''v''] = Inr out)"
    using Parse_empty_placeholder_key [of "NewParser ''{{'' ''}}''" 3 Map.empty]
    by (simp add: NewParser_def only_spaces_def Parse_def parse.simps SplitN2_def Trim_def
        Inject_def numeral_3_eq_3)
  then show ?thesis by (simp add: NewParser_def only_spaces_def)
qed

text \<open>
  The claim is stated for every non-empty delimiter pair. When both delimiters are a single
  space, the input of a start delimiter, one space and an end delimiter is three spaces:
  the first placeholder is closed by the second space, the third space opens another one
  that nothing closes, and \<open>Parse\<close> fails.
\<close>

theorem Parse_empty_placeholder_key_counterexample:
  "startDelim (NewParser '' '' '' '') \<noteq> [] \<and> endDelim (NewParser '' '' '' '') \<noteq> []
   \<and> Parse (NewParser '' '' '' '')
        (startDelim (NewParser '' '' '' '') @ replicate 1 CHR '' '' @ endDelim (NewParser '' '' '' ''))
       = Inl (ErrTagNotClosed '' '')"
  by (simp add: NewParser_def Parse_def parse.simps SplitN2_def)

end
